theory Spec2Isabelle
  imports Complex_Main
begin

section \<open>Data model\<close>

text \<open>
  A move is a pair of board coordinates; \<open>(-1, -1)\<close> is the no-move sentinel of the
  source.
\<close>

type_synonym move = "int \<times> int"

definition NO_MOVE :: move where
  "NO_MOVE = (-1, -1)"

text \<open>
  Scores are Python floats. The search only compares them, and the evaluator builds
  them from list lengths, so a score is \<open>float("-inf")\<close>, \<open>float("inf")\<close> or a finite
  number; finite numbers are kept as exact rationals (rounding is not modelled, a NaN
  cannot arise).
\<close>

datatype score = NegInf | Fin rat | PosInf

instantiation score :: linorder
begin

fun less_eq_score :: "score \<Rightarrow> score \<Rightarrow> bool" where
  "less_eq_score NegInf _ = True"
| "less_eq_score (Fin a) NegInf = False"
| "less_eq_score (Fin a) (Fin b) = (a \<le> b)"
| "less_eq_score (Fin a) PosInf = True"
| "less_eq_score PosInf PosInf = True"
| "less_eq_score PosInf _ = False"

definition less_score :: "score \<Rightarrow> score \<Rightarrow> bool" where
  "less_score x y = (x \<le> y \<and> \<not> y \<le> x)"

instance
proof
  fix x y z :: score
  show "(x < y) = (x \<le> y \<and> \<not> y \<le> x)"
    by (simp add: less_score_def)
  show "x \<le> x"
    by (cases x) simp_all
  show "x \<le> y \<Longrightarrow> y \<le> z \<Longrightarrow> x \<le> z"
    by (cases x; cases y; cases z) simp_all
  show "x \<le> y \<Longrightarrow> y \<le> x \<Longrightarrow> x = y"
    by (cases x; cases y) simp_all
  show "x \<le> y \<or> y \<le> x"
    by (cases x; cases y) auto
qed

end

text \<open>The exceptions the modelled code can raise.\<close>

datatype error = SearchTimeout | TypeError | IndexError

text \<open>
  The board class \<open>isolation.Board\<close> is not part of the sources: its methods are
  parameters of the model, pure functions of the game state \<open>'s\<close> and of a player
  \<open>'p\<close>, as the interface section of the specification describes them.
\<close>

record ('s, 'p) board =
  get_legal_moves :: "'s \<Rightarrow> 'p \<Rightarrow> move list"
  active_player :: "'s \<Rightarrow> 'p"
  forecast_move :: "'s \<Rightarrow> move \<Rightarrow> 's"
  is_loser :: "'s \<Rightarrow> 'p \<Rightarrow> bool"
  is_winner :: "'s \<Rightarrow> 'p \<Rightarrow> bool"
  get_opponent :: "'s \<Rightarrow> 'p \<Rightarrow> 'p"
  get_blank_spaces :: "'s \<Rightarrow> move list"
  get_player_location :: "'s \<Rightarrow> 'p \<Rightarrow> move"

text \<open>
  What a run does to its surroundings. \<open>clock_reads\<close> counts the calls of the clock:
  the clock of the source is a callable, here a function from the number of earlier
  reads to the remaining time it reports. \<open>rng\<close> is the sequence of raw outputs of
  the random generator and \<open>rand_draws\<close> the number already consumed. \<open>events\<close>
  records, in order, the calls made to the board and to the evaluator.
\<close>

datatype 's event =
  EvLegalMoves 's
| EvForecast 's move
| EvScore 's
| EvLocation 's

record 's world =
  clock_reads :: nat
  rng :: "nat \<Rightarrow> nat"
  rand_draws :: nat
  events :: "'s event list"

definition note_event :: "'s event \<Rightarrow> 's world \<Rightarrow> 's world" where
  "note_event e w = w\<lparr>events := events w @ [e]\<rparr>"

section \<open>The evaluator\<close>

definition custom_score :: "('s, 'p) board \<Rightarrow> 's \<Rightarrow> 'p \<Rightarrow> score" where
  "custom_score B game player =
     (if is_loser B game player then NegInf
      else if is_winner B game player then PosInf
      else
        let my_moves = (of_nat (length (get_legal_moves B game player)) :: rat);
            opponent_moves =
              (of_nat (length (get_legal_moves B game (get_opponent B game player))) :: rat);
            blank_slots = (of_nat (length (get_blank_spaces B game)) :: rat)
        in Fin (my_moves - 2 * opponent_moves + (blank_slots / 2 + 2 * my_moves) / 13))"

section \<open>The agent\<close>

text \<open>
  The attributes of a \<open>CustomPlayer\<close> object. \<open>ident\<close> stands for the identity of
  the object: the source passes \<open>self\<close> to the board as the player to score for.
\<close>

record ('s, 'p) agent =
  ident :: 'p
  score :: "('s, 'p) board \<Rightarrow> 's \<Rightarrow> 'p \<Rightarrow> score"
  time_left :: "(nat \<Rightarrow> rat) option"
  TIMER_THRESHOLD :: rat

definition CustomPlayer :: "'p \<Rightarrow> 'd \<Rightarrow> rat \<Rightarrow> ('s, 'p) agent" where
  "CustomPlayer self data timeout =
     \<lparr>ident = self, score = custom_score, time_left = None, TIMER_THRESHOLD = timeout\<rparr>"

text \<open>
  The check that opens \<open>alphabeta\<close>, \<open>_max_value\<close> and \<open>_min_value\<close>:
  \<open>if self.time_left() < self.TIMER_THRESHOLD: raise SearchTimeout()\<close>. Calling the
  attribute while it is still \<open>None\<close> is a \<open>TypeError\<close>.
\<close>

definition check_timer :: "('s, 'p) agent \<Rightarrow> 's world \<Rightarrow> (error + unit) \<times> 's world" where
  "check_timer A w =
     (case time_left A of
        None \<Rightarrow> (Inl TypeError, w)
      | Some clock \<Rightarrow>
          if clock (clock_reads w) < TIMER_THRESHOLD A
          then (Inl SearchTimeout, w\<lparr>clock_reads := Suc (clock_reads w)\<rparr>)
          else (Inr (), w\<lparr>clock_reads := Suc (clock_reads w)\<rparr>))"

text \<open>
  \<open>_max_value\<close> and \<open>_min_value\<close>, each with its \<open>for move in legal_moves\<close> loop
  as a function over the moves still to visit. \<open>depth\<close> is a natural number: the
  source counts it down to \<open>0\<close> and \<open>get_move\<close> starts it at \<open>1\<close>. The loops take
  the depth of the children, \<open>depth - 1\<close>.
\<close>

function max_value ::
    "('s, 'p) agent \<Rightarrow> ('s, 'p) board \<Rightarrow> 's \<Rightarrow> nat \<Rightarrow> score \<Rightarrow> score \<Rightarrow> 's world
      \<Rightarrow> (error + score \<times> move) \<times> 's world"
  and max_loop ::
    "('s, 'p) agent \<Rightarrow> ('s, 'p) board \<Rightarrow> 's \<Rightarrow> nat \<Rightarrow> move list \<Rightarrow> score \<Rightarrow> score
      \<Rightarrow> score \<Rightarrow> move \<Rightarrow> 's world \<Rightarrow> (error + score \<times> move) \<times> 's world"
  and min_value ::
    "('s, 'p) agent \<Rightarrow> ('s, 'p) board \<Rightarrow> 's \<Rightarrow> nat \<Rightarrow> score \<Rightarrow> score \<Rightarrow> 's world
      \<Rightarrow> (error + score \<times> move) \<times> 's world"
  and min_loop ::
    "('s, 'p) agent \<Rightarrow> ('s, 'p) board \<Rightarrow> 's \<Rightarrow> nat \<Rightarrow> move list \<Rightarrow> score \<Rightarrow> score
      \<Rightarrow> score \<Rightarrow> move \<Rightarrow> 's world \<Rightarrow> (error + score \<times> move) \<times> 's world"
where
  "max_value A B game depth alpha beta w =
     (case check_timer A w of
        (Inl e, w1) \<Rightarrow> (Inl e, w1)
      | (Inr _, w1) \<Rightarrow>
          (case depth of
             0 \<Rightarrow>
               (Inr (score A B game (ident A), get_player_location B game (ident A)),
                note_event (EvLocation game) (note_event (EvScore game) w1))
           | Suc d \<Rightarrow>
               let legal_moves = get_legal_moves B game (active_player B game);
                   w2 = note_event (EvLegalMoves game) w1
               in if legal_moves = []
                  then (Inr (score A B game (ident A), NO_MOVE), note_event (EvScore game) w2)
                  else max_loop A B game d legal_moves alpha beta NegInf NO_MOVE w2))"
| "max_loop A B game d [] alpha beta value_of_game best_move w =
     (Inr (value_of_game, best_move), w)"
| "max_loop A B game d (move # moves) alpha beta value_of_game best_move w =
     (case min_value A B (forecast_move B game move) d alpha beta
             (note_event (EvForecast game move) w) of
        (Inl e, w1) \<Rightarrow> (Inl e, w1)
      | (Inr (new_score, _), w1) \<Rightarrow>
          let (value_of_game', best_move') =
                (if new_score > value_of_game then (new_score, move)
                 else (value_of_game, best_move))
          in if new_score \<ge> beta then (Inr (value_of_game', best_move'), w1)
             else max_loop A B game d moves (max alpha new_score) beta
                    value_of_game' best_move' w1)"
| "min_value A B game depth alpha beta w =
     (case check_timer A w of
        (Inl e, w1) \<Rightarrow> (Inl e, w1)
      | (Inr _, w1) \<Rightarrow>
          (case depth of
             0 \<Rightarrow>
               (Inr (score A B game (ident A), get_player_location B game (ident A)),
                note_event (EvLocation game) (note_event (EvScore game) w1))
           | Suc d \<Rightarrow>
               let legal_moves = get_legal_moves B game (active_player B game);
                   w2 = note_event (EvLegalMoves game) w1
               in if legal_moves = []
                  then (Inr (score A B game (ident A), NO_MOVE), note_event (EvScore game) w2)
                  else min_loop A B game d legal_moves alpha beta PosInf NO_MOVE w2))"
| "min_loop A B game d [] alpha beta value_of_game best_move w =
     (Inr (value_of_game, best_move), w)"
| "min_loop A B game d (move # moves) alpha beta value_of_game best_move w =
     (case max_value A B (forecast_move B game move) d alpha beta
             (note_event (EvForecast game move) w) of
        (Inl e, w1) \<Rightarrow> (Inl e, w1)
      | (Inr (new_score, _), w1) \<Rightarrow>
          let (value_of_game', best_move') =
                (if new_score < value_of_game then (new_score, move)
                 else (value_of_game, best_move))
          in if new_score \<le> alpha then (Inr (value_of_game', best_move'), w1)
             else min_loop A B game d moves alpha (min beta new_score)
                    value_of_game' best_move' w1)"

  by pat_completeness auto

termination
  by (relation "inv_image (less_than <*lex*> less_than)
        (\<lambda>x. case x of
           Inl (Inl (A, B, game, depth, alpha, beta, w)) \<Rightarrow> (2 * depth, 0)
         | Inl (Inr (A, B, game, d, moves, alpha, beta, v, b, w)) \<Rightarrow>
             (2 * d + 1, length moves)
         | Inr (Inl (A, B, game, depth, alpha, beta, w)) \<Rightarrow> (2 * depth, 0)
         | Inr (Inr (A, B, game, d, moves, alpha, beta, v, b, w)) \<Rightarrow>
             (2 * d + 1, length moves))")
     auto

declare max_value.simps [simp del] min_value.simps [simp del]

text \<open>\<open>alphabeta\<close>: the timer check, then the move component of \<open>_max_value\<close>.\<close>

definition alphabeta ::
    "('s, 'p) agent \<Rightarrow> ('s, 'p) board \<Rightarrow> 's \<Rightarrow> nat \<Rightarrow> score \<Rightarrow> score \<Rightarrow> 's world
      \<Rightarrow> (error + move) \<times> 's world" where
  "alphabeta A B game depth alpha beta w =
     (case check_timer A w of
        (Inl e, w1) \<Rightarrow> (Inl e, w1)
      | (Inr _, w1) \<Rightarrow>
          (case max_value A B game depth alpha beta w1 of
             (Inl e, w2) \<Rightarrow> (Inl e, w2)
           | (Inr (_, best_move), w2) \<Rightarrow> (Inr best_move, w2)))"

text \<open>
  \<open>random.choice(seq)\<close> returns \<open>seq[i]\<close> for a drawn index \<open>i < len(seq)\<close> and
  raises \<open>IndexError\<close> on an empty sequence.
\<close>

definition random_choice :: "'a list \<Rightarrow> 's world \<Rightarrow> (error + 'a) \<times> 's world" where
  "random_choice xs w =
     (if xs = [] then (Inl IndexError, w)
      else (Inr (xs ! (rng w (rand_draws w) mod length xs)),
            w\<lparr>rand_draws := Suc (rand_draws w)\<rparr>))"

text \<open>
  The loop \<open>while True: chosen_move_in_time = self.alphabeta(game, depth); depth += 1\<close>
  of \<open>get_move\<close>. It has no exit of its own: it ends only when \<open>alphabeta\<close> raises,
  and then yields the exception together with the value \<open>chosen_move_in_time\<close> has at
  that moment. A run that never ends is \<open>None\<close>.
\<close>

partial_function (option) deepening ::
    "('s, 'p) agent \<Rightarrow> ('s, 'p) board \<Rightarrow> 's \<Rightarrow> nat \<Rightarrow> move \<Rightarrow> 's world
      \<Rightarrow> ((error \<times> move) \<times> 's world) option" where
  "deepening A B game depth chosen_move_in_time w =
     (case alphabeta A B game depth NegInf PosInf w of
        (Inl e, w1) \<Rightarrow> Some ((e, chosen_move_in_time), w1)
      | (Inr m, w1) \<Rightarrow> deepening A B game (depth + 1) m w1)"

declare deepening.simps [code]

text \<open>
  \<open>get_move\<close>. The agent and the game are objects the caller passes in, so the model
  gives them back as they are after the call, with the move and the world: the agent
  with its attribute \<open>time_left\<close> assigned; the game as it was, since \<open>get_move\<close> and
  the search only query it and call \<open>forecast_move\<close>, which returns a new state. Only
  \<open>SearchTimeout\<close> is caught by the \<open>except\<close> clause.
\<close>

definition get_move ::
    "('s, 'p) agent \<Rightarrow> ('s, 'p) board \<Rightarrow> 's \<Rightarrow> (nat \<Rightarrow> rat) \<Rightarrow> 's world
      \<Rightarrow> ((error + move) \<times> ('s, 'p) agent \<times> 's \<times> 's world) option" where
  "get_move A B game clock w =
     (let self = A\<lparr>time_left := Some clock\<rparr>;
          legal_moves = get_legal_moves B game (active_player B game);
          w0 = note_event (EvLegalMoves game) w
      in if legal_moves = [] then Some (Inr NO_MOVE, self, game, w0)
         else
           (case deepening self B game 1 NO_MOVE w0 of
              None \<Rightarrow> None
            | Some ((SearchTimeout, chosen_move_in_time), w1) \<Rightarrow>
                if chosen_move_in_time = NO_MOVE
                then (case random_choice legal_moves w1 of
                        (Inl e, w2) \<Rightarrow> Some (Inl e, self, game, w2)
                      | (Inr m, w2) \<Rightarrow> Some (Inr m, self, game, w2))
                else Some (Inr chosen_move_in_time, self, game, w1)
            | Some ((e, _), w1) \<Rightarrow> Some (Inl e, self, game, w1)))"

text \<open>
  The loop of \<open>get_move\<close> run for \<open>n\<close> iterations: the variables \<open>depth\<close> and
  \<open>chosen_move_in_time\<close> and the world after them, or \<open>None\<close> when one of these
  iterations raised. Before the loop \<open>depth = 1\<close> and \<open>chosen_move_in_time = (-1, -1)\<close>.
\<close>

fun completed_depths ::
    "('s, 'p) agent \<Rightarrow> ('s, 'p) board \<Rightarrow> 's \<Rightarrow> nat \<Rightarrow> 's world
      \<Rightarrow> (nat \<times> move \<times> 's world) option" where
  "completed_depths A B game 0 w = Some (1, NO_MOVE, w)"
| "completed_depths A B game (Suc n) w =
     (case completed_depths A B game n w of
        None \<Rightarrow> None
      | Some (depth, _, w1) \<Rightarrow>
          (case alphabeta A B game depth NegInf PosInf w1 of
             (Inl e, w2) \<Rightarrow> None
           | (Inr m, w2) \<Rightarrow> Some (depth + 1, m, w2)))"

section \<open>Reference search without pruning\<close>


text \<open>
  A scan over moves with their values, in enumeration order: a move replaces the best
  so far only when its value is strictly greater, so of several moves with the best
  value the first one met is kept.
\<close>

fun first_best :: "(move \<times> score) list \<Rightarrow> score \<Rightarrow> move \<Rightarrow> move" where
  "first_best [] best_score best_move = best_move"
| "first_best ((m, s) # rest) best_score best_move =
     (if s > best_score then first_best rest s m
      else first_best rest best_score best_move)"


section \<open>A small game for concrete runs\<close>

text \<open>
  A game tree with states numbered by naturals; the agent is the player \<open>True\<close>.
  From state \<open>0\<close> the agent may move to \<open>1\<close> or \<open>2\<close>; from \<open>1\<close> the opponent
  moves to \<open>3\<close>, which is won for the agent; \<open>2\<close> is a dead end without a winner.
  From state \<open>10\<close> the agent may move to \<open>11\<close> or \<open>12\<close>, both lost for it.
\<close>

definition toy_board :: "(nat, bool) board" where
  "toy_board =
     \<lparr>get_legal_moves =
        (\<lambda>s p. if s = 0 \<or> s = 10 then [(0, 0), (0, 1)] else if s = 1 then [(1, 0)] else []),
      active_player = (\<lambda>s. s \<noteq> 1),
      forecast_move =
        (\<lambda>s m. if s = 0 \<or> s = 10 then s + 1 + nat (snd m) else if s = 1 then 3 else s),
      is_loser = (\<lambda>s p. p \<and> (s = 11 \<or> s = 12)),
      is_winner = (\<lambda>s p. p \<and> s = 3),
      get_opponent = (\<lambda>s p. \<not> p),
      get_blank_spaces = (\<lambda>s. [(2, 2)]),
      get_player_location = (\<lambda>s p. (0, 0))\<rparr>"

definition toy_agent :: "(nat, bool) agent" where
  "toy_agent = CustomPlayer True () 1"

definition toy_world :: "nat world" where
  "toy_world = \<lparr>clock_reads = 0, rng = (\<lambda>n. Suc n), rand_draws = 0, events = []\<rparr>"

text \<open>A clock that reports 150 ms and loses 10 ms with each read.\<close>

definition countdown :: "nat \<Rightarrow> rat" where
  "countdown n = 150 - 10 * of_nat n"

text \<open>A clock that never gets near the threshold.\<close>

definition steady_clock :: "nat \<Rightarrow> rat" where
  "steady_clock n = 150"

section \<open>Notions used in the proofs\<close>


text \<open>
  The clock reads \<open>i, \<dots>, j - 1\<close> of a run: all at or above the threshold when the run
  returns; when it raises, the exception is \<open>SearchTimeout\<close> and the last read is the
  only one below the threshold. A search leaves the random generator alone.
\<close>

definition span_ok :: "(nat \<Rightarrow> rat) \<Rightarrow> rat \<Rightarrow> nat \<Rightarrow> error option \<Rightarrow> nat \<Rightarrow> bool" where
  "span_ok clock thr i err j =
     (i \<le> j \<and>
      (case err of
         None \<Rightarrow> (\<forall>k. i \<le> k \<and> k < j \<longrightarrow> \<not> clock k < thr)
       | Some e \<Rightarrow> e = SearchTimeout \<and> i < j
                   \<and> (\<forall>k. i \<le> k \<and> k < j - 1 \<longrightarrow> \<not> clock k < thr)
                   \<and> clock (j - 1) < thr))"

definition err_of :: "error + 'a \<Rightarrow> error option" where
  "err_of r = (case r of Inl e \<Rightarrow> Some e | Inr _ \<Rightarrow> None)"

definition run_ok ::
    "(nat \<Rightarrow> rat) \<Rightarrow> rat \<Rightarrow> 's world \<Rightarrow> (error + 'a) \<times> 's world \<Rightarrow> bool" where
  "run_ok clock thr w rw =
     (span_ok clock thr (clock_reads w) (err_of (fst rw)) (clock_reads (snd rw))
      \<and> rng (snd rw) = rng w \<and> rand_draws (snd rw) = rand_draws w)"

section \<open>Pruning does not change the chosen move\<close>














lemma max_value_Suc:
  assumes "max_value A B game (Suc d) alpha beta w = (Inr r, w')"
  shows "(get_legal_moves B game (active_player B game) = []
            \<and> r = (score A B game (ident A), NO_MOVE))
         \<or> (get_legal_moves B game (active_player B game) \<noteq> []
            \<and> (\<exists>w2. max_loop A B game d (get_legal_moves B game (active_player B game))
                       alpha beta NegInf NO_MOVE w2 = (Inr r, w')))"
  using assms by (auto simp: max_value.simps Let_def split: prod.splits sum.splits if_splits)





text \<open>
  Properties of the scan: it keeps its starting move when no value exceeds the starting
  value; otherwise it returns the first move of greatest value, whatever the starting
  move was.
\<close>

lemma first_best_unchanged:
  "\<forall>(m, s)\<in>set xs. \<not> v < s \<Longrightarrow> first_best xs v b = b"
  by (induction xs arbitrary: v b) auto

lemma first_best_first_max:
  assumes "\<exists>(m, s)\<in>set xs. v < s"
  shows "\<exists>ys m s zs. xs = ys @ (m, s) # zs \<and> first_best xs v b = m \<and> v < s
           \<and> (\<forall>(m', s')\<in>set ys. s' < s) \<and> (\<forall>(m', s')\<in>set zs. s' \<le> s)"
  using assms
proof (induction xs arbitrary: v b)
  case Nil
  then show ?case by simp
next
  case (Cons x xs)
  obtain m0 s0 where x: "x = (m0, s0)" by (cases x)
  show ?case
  proof (cases "v < s0")
    case True
    show ?thesis
    proof (cases "\<exists>(m, s)\<in>set xs. s0 < s")
      case True
      from Cons.IH[OF True, of m0] obtain ys m s zs where
        *: "xs = ys @ (m, s) # zs" "first_best xs s0 m0 = m" "s0 < s"
           "\<forall>(m', s')\<in>set ys. s' < s" "\<forall>(m', s')\<in>set zs. s' \<le> s"
        by blast
      from * x \<open>v < s0\<close> have "x # xs = (x # ys) @ (m, s) # zs"
        "first_best (x # xs) v b = m" "v < s" "\<forall>(m', s')\<in>set (x # ys). s' < s"
        by auto
      with *(5) show ?thesis by blast
    next
      case False
      then have le: "\<forall>(m, s)\<in>set xs. \<not> s0 < s" by auto
      then have "first_best xs s0 m0 = m0" by (rule first_best_unchanged)
      with x True have "first_best (x # xs) v b = m0" by simp
      moreover from le have "\<forall>(m', s')\<in>set xs. s' \<le> s0" by (auto simp: not_less)
      ultimately have "x # xs = [] @ (m0, s0) # xs \<and> first_best (x # xs) v b = m0 \<and> v < s0
           \<and> (\<forall>(m', s')\<in>set []. s' < s0) \<and> (\<forall>(m', s')\<in>set xs. s' \<le> s0)"
        using x True by simp
      then show ?thesis by blast
    qed
  next
    case False
    with Cons.prems x have "\<exists>(m, s)\<in>set xs. v < s" by auto
    from Cons.IH[OF this, of b] obtain ys m s zs where
      *: "xs = ys @ (m, s) # zs" "first_best xs v b = m" "v < s"
         "\<forall>(m', s')\<in>set ys. s' < s" "\<forall>(m', s')\<in>set zs. s' \<le> s"
      by blast
    from * x False have "x # xs = (x # ys) @ (m, s) # zs"
      "first_best (x # xs) v b = m" "\<forall>(m', s')\<in>set (x # ys). s' < s"
      by auto
    with *(3,5) show ?thesis by blast
  qed
qed






section \<open>Timer check, evaluator, leaves, constructor\<close>

lemma check_timer_expired:
  "time_left A = Some clock \<Longrightarrow> clock (clock_reads w) < TIMER_THRESHOLD A
     \<Longrightarrow> check_timer A w = (Inl SearchTimeout, w\<lparr>clock_reads := Suc (clock_reads w)\<rparr>)"
  by (simp add: check_timer_def)


text \<open>
  Claim C4. \<open>alphabeta\<close>, \<open>_max_value\<close> and \<open>_min_value\<close> read the clock first: when
  the reading is below the threshold, each of them, at any state, depth and window,
  raises \<open>SearchTimeout\<close> having done nothing but that one read of the clock (no call
  of the evaluator, no enumeration of moves, no successor state: the record of events
  is unchanged). The recursion goes through \<open>_max_value\<close> and \<open>_min_value\<close>, so the
  check is made at every node.
\<close>

theorem timer_checked_first:
  assumes "time_left A = Some clock"
    and "clock (clock_reads w) < TIMER_THRESHOLD A"
  shows "alphabeta A B game depth alpha beta w
           = (Inl SearchTimeout, w\<lparr>clock_reads := Suc (clock_reads w)\<rparr>)
       \<and> max_value A B game depth alpha beta w
           = (Inl SearchTimeout, w\<lparr>clock_reads := Suc (clock_reads w)\<rparr>)
       \<and> min_value A B game depth alpha beta w
           = (Inl SearchTimeout, w\<lparr>clock_reads := Suc (clock_reads w)\<rparr>)"
  using check_timer_expired[OF assms]
  by (simp add: alphabeta_def max_value.simps min_value.simps)

theorem timer_checked_first_witness:
  "alphabeta (toy_agent\<lparr>time_left := Some countdown\<rparr>) toy_board 0 2 NegInf PosInf
       (toy_world\<lparr>clock_reads := 15\<rparr>)
     = (Inl SearchTimeout, toy_world\<lparr>clock_reads := 16\<rparr>)
   \<and> max_value (toy_agent\<lparr>time_left := Some countdown\<rparr>) toy_board 0 2 NegInf PosInf
       (toy_world\<lparr>clock_reads := 15\<rparr>)
     = (Inl SearchTimeout, toy_world\<lparr>clock_reads := 16\<rparr>)
   \<and> min_value (toy_agent\<lparr>time_left := Some countdown\<rparr>) toy_board 0 2 NegInf PosInf
       (toy_world\<lparr>clock_reads := 15\<rparr>)
     = (Inl SearchTimeout, toy_world\<lparr>clock_reads := 16\<rparr>)"
  using timer_checked_first[where A = "toy_agent\<lparr>time_left := Some countdown\<rparr>"
      and clock = countdown and w = "toy_world\<lparr>clock_reads := 15\<rparr>" and B = toy_board
      and game = 0 and depth = 2 and alpha = NegInf and beta = PosInf]
  by (simp add: toy_agent_def CustomPlayer_def countdown_def toy_world_def)

lemma NegInf_less_Fin: "NegInf < Fin r" by (simp add: less_score_def)
lemma Fin_less_PosInf: "Fin r < PosInf" by (simp add: less_score_def)

text \<open>
  Claim C5. The evaluator returns \<open>-inf\<close> for a state lost for the player, \<open>+inf\<close> for
  a state won for the player and a finite value for a state that is neither; so a won
  state scores strictly above a state that is neither, which scores strictly above a
  lost one. (A board reports a state as won only if it does not report it as lost.)
\<close>

theorem custom_score_boundaries:
  assumes "is_winner B won player" and "\<not> is_loser B won player"
    and "\<not> is_loser B undecided player" and "\<not> is_winner B undecided player"
    and "is_loser B lost player"
  shows "custom_score B lost player = NegInf
       \<and> custom_score B won player = PosInf
       \<and> (\<exists>r. custom_score B undecided player = Fin r)
       \<and> custom_score B lost player < custom_score B undecided player
       \<and> custom_score B undecided player < custom_score B won player"
  using assms by (simp add: custom_score_def Let_def NegInf_less_Fin Fin_less_PosInf)

theorem custom_score_boundaries_witness:
  "custom_score toy_board 11 True = NegInf
   \<and> custom_score toy_board 3 True = PosInf
   \<and> (\<exists>r. custom_score toy_board 2 True = Fin r)
   \<and> custom_score toy_board 11 True < custom_score toy_board 2 True
   \<and> custom_score toy_board 2 True < custom_score toy_board 3 True"
proof -
  have "is_winner toy_board 3 True" and "\<not> is_loser toy_board 3 True"
    and "\<not> is_loser toy_board 2 True" and "\<not> is_winner toy_board 2 True"
    and "is_loser toy_board 11 True"
    by (simp_all add: toy_board_def)
  then show ?thesis by (rule custom_score_boundaries)
qed



text \<open>
  Claim C7. In a state where the active player has no legal move, \<open>get_move\<close> returns
  the sentinel \<open>(-1, -1)\<close> at once: the only call made is the enumeration of the legal
  moves; the clock is not read, the evaluator is not called, nothing is searched.
\<close>

theorem get_move_no_legal_moves:
  assumes "get_legal_moves B game (active_player B game) = []"
  shows "get_move A B game clock w
           = Some (Inr NO_MOVE, A\<lparr>time_left := Some clock\<rparr>, game,
                   w\<lparr>events := events w @ [EvLegalMoves game]\<rparr>)"
  using assms by (simp add: get_move_def note_event_def)

theorem get_move_no_legal_moves_witness:
  "get_move toy_agent toy_board 2 countdown toy_world
     = Some (Inr NO_MOVE, toy_agent\<lparr>time_left := Some countdown\<rparr>, 2,
             toy_world\<lparr>events := events toy_world @ [EvLegalMoves 2]\<rparr>)"
proof -
  have "get_legal_moves toy_board 2 (active_player toy_board 2) = []"
    by (simp add: toy_board_def)
  then show ?thesis by (rule get_move_no_legal_moves)
qed

text \<open>
  Claim C10. The constructor ignores its argument \<open>data\<close>: the evaluator of the agent is
  \<open>custom_score\<close>, its threshold is the \<open>timeout\<close> given, and two agents built with
  different \<open>data\<close> are the same agent, hence behave alike in \<open>get_move\<close> and
  \<open>alphabeta\<close>.
\<close>

theorem data_argument_ignored:
  "score (CustomPlayer self data timeout) = custom_score
   \<and> TIMER_THRESHOLD (CustomPlayer self data timeout) = timeout
   \<and> CustomPlayer self data timeout = CustomPlayer self data' timeout
   \<and> get_move (CustomPlayer self data timeout) = get_move (CustomPlayer self data' timeout)
   \<and> alphabeta (CustomPlayer self data timeout) = alphabeta (CustomPlayer self data' timeout)"
  by (simp add: CustomPlayer_def)

section \<open>The clock during a search\<close>

lemma span_ok_trans:
  "span_ok clock thr i None j \<Longrightarrow> span_ok clock thr j e k \<Longrightarrow> span_ok clock thr i e k"
  unfolding span_ok_def
  by (cases e) (auto simp: not_less, (metis Suc_pred le_less_trans less_Suc_eq_le not_less)+)

lemma run_ok_trans:
  assumes "run_ok clock thr w (Inr x, w1)" and "run_ok clock thr w1 rw"
  shows "run_ok clock thr w rw"
  using assms span_ok_trans[of clock thr "clock_reads w" "clock_reads w1"
      "err_of (fst rw)" "clock_reads (snd rw)"]
  by (simp add: run_ok_def err_of_def)

lemma run_ok_refl: "run_ok clock thr w (Inr x, w)"
  by (simp add: run_ok_def span_ok_def err_of_def)

lemma run_ok_note_event_src: "run_ok clock thr (note_event e w) rw = run_ok clock thr w rw"
  by (simp add: run_ok_def note_event_def)

lemma run_ok_note_event_tgt: "run_ok clock thr w (r, note_event e w') = run_ok clock thr w (r, w')"
  by (simp add: run_ok_def note_event_def)

lemma run_ok_Inl:
  "run_ok clock thr w (Inl e :: error + 'a, w') \<Longrightarrow> run_ok clock thr w (Inl e :: error + 'b, w')"
  by (simp add: run_ok_def err_of_def)

lemma run_ok_Inr:
  "run_ok clock thr w (Inr x, w') \<Longrightarrow> run_ok clock thr w (Inr y, w')"
  by (simp add: run_ok_def err_of_def)

lemma run_ok_check_timer:
  "time_left A = Some clock \<Longrightarrow> run_ok clock (TIMER_THRESHOLD A) w (check_timer A w)"
  by (auto simp: check_timer_def run_ok_def span_ok_def err_of_def less_Suc_eq_le)

lemma max_loop_run_ok:
  assumes IH: "\<And>g a b w. run_ok clock thr w (min_value A B g d a b w)"
  shows "run_ok clock thr w (max_loop A B game d moves alpha beta v b w)"
proof (induction moves arbitrary: alpha v b w)
  case Nil
  show ?case by (simp add: run_ok_refl)
next
  case (Cons mv moves)
  let ?child = "min_value A B (forecast_move B game mv) d alpha beta (note_event (EvForecast game mv) w)"
  obtain r w1 where child: "?child = (r, w1)" by (cases ?child)
  from IH[of "note_event (EvForecast game mv) w" "forecast_move B game mv" alpha beta] child
  have c: "run_ok clock thr w (r, w1)" by (simp add: run_ok_note_event_src)
  show ?case
  proof (cases r)
    case (Inl e)
    with c child show ?thesis by (auto intro: run_ok_Inl)
  next
    case (Inr sm)
    obtain s mc where sm: "sm = (s, mc)" by (cases sm)
    show ?thesis
    proof (cases "beta \<le> s")
      case True
      with c child Inr sm show ?thesis by (auto simp: run_ok_def err_of_def)
    next
      case False
      have "run_ok clock thr w (Inr (s, mc), w1)" using c Inr sm by simp
      from run_ok_trans[OF this Cons.IH] False child Inr sm show ?thesis
        by (auto split: if_splits)
    qed
  qed
qed

lemma min_loop_run_ok:
  assumes IH: "\<And>g a b w. run_ok clock thr w (max_value A B g d a b w)"
  shows "run_ok clock thr w (min_loop A B game d moves alpha beta v b w)"
proof (induction moves arbitrary: beta v b w)
  case Nil
  show ?case by (simp add: run_ok_refl)
next
  case (Cons mv moves)
  let ?child = "max_value A B (forecast_move B game mv) d alpha beta (note_event (EvForecast game mv) w)"
  obtain r w1 where child: "?child = (r, w1)" by (cases ?child)
  from IH[of "note_event (EvForecast game mv) w" "forecast_move B game mv" alpha beta] child
  have c: "run_ok clock thr w (r, w1)" by (simp add: run_ok_note_event_src)
  show ?case
  proof (cases r)
    case (Inl e)
    with c child show ?thesis by (auto intro: run_ok_Inl)
  next
    case (Inr sm)
    obtain s mc where sm: "sm = (s, mc)" by (cases sm)
    show ?thesis
    proof (cases "s \<le> alpha")
      case True
      with c child Inr sm show ?thesis by (auto simp: run_ok_def err_of_def)
    next
      case False
      have "run_ok clock thr w (Inr (s, mc), w1)" using c Inr sm by simp
      from run_ok_trans[OF this Cons.IH] False child Inr sm show ?thesis
        by (auto split: if_splits)
    qed
  qed
qed

lemma search_run_ok:
  assumes tl: "time_left A = Some clock"
  shows "run_ok clock (TIMER_THRESHOLD A) w (max_value A B game d alpha beta w)
       \<and> run_ok clock (TIMER_THRESHOLD A) w (min_value A B game d alpha beta w)"
proof (induction d arbitrary: game alpha beta w)
  case 0
  obtain r w1 where c: "check_timer A w = (r, w1)" by (cases "check_timer A w")
  with run_ok_check_timer[OF tl, of w] have ct: "run_ok clock (TIMER_THRESHOLD A) w (r, w1)"
    by simp
  show ?case
  proof (cases r)
    case (Inl e)
    with ct c show ?thesis
      by (auto simp: max_value.simps min_value.simps intro: run_ok_Inl)
  next
    case (Inr u)
    with ct c show ?thesis
      by (auto simp: max_value.simps min_value.simps run_ok_note_event_tgt intro: run_ok_Inr)
  qed
next
  case (Suc d)
  obtain r w1 where c: "check_timer A w = (r, w1)" by (cases "check_timer A w")
  with run_ok_check_timer[OF tl, of w] have ct: "run_ok clock (TIMER_THRESHOLD A) w (r, w1)"
    by simp
  show ?case
  proof (cases r)
    case (Inl e)
    with ct c show ?thesis
      by (auto simp: max_value.simps min_value.simps intro: run_ok_Inl)
  next
    case (Inr u)
    let ?legal = "get_legal_moves B game (active_player B game)"
    let ?w2 = "note_event (EvLegalMoves game) w1"
    from ct Inr have 1: "run_ok clock (TIMER_THRESHOLD A) w (Inr u, ?w2)"
      by (simp add: run_ok_note_event_tgt)
    show ?thesis
    proof (cases "?legal = []")
      case True
      with ct c Inr show ?thesis
        by (auto simp: max_value.simps min_value.simps run_ok_note_event_tgt intro: run_ok_Inr)
    next
      case False
      have "run_ok clock (TIMER_THRESHOLD A) ?w2
              (max_loop A B game d ?legal alpha beta NegInf NO_MOVE ?w2)"
        by (rule max_loop_run_ok) (simp add: Suc.IH)
      from run_ok_trans[OF 1 this]
      have mx: "run_ok clock (TIMER_THRESHOLD A) w (max_value A B game (Suc d) alpha beta w)"
        using c Inr False by (simp add: max_value.simps)
      have "run_ok clock (TIMER_THRESHOLD A) ?w2
              (min_loop A B game d ?legal alpha beta PosInf NO_MOVE ?w2)"
        by (rule min_loop_run_ok) (simp add: Suc.IH)
      from run_ok_trans[OF 1 this]
      have mn: "run_ok clock (TIMER_THRESHOLD A) w (min_value A B game (Suc d) alpha beta w)"
        using c Inr False by (simp add: min_value.simps)
      from mx mn show ?thesis ..
    qed
  qed
qed

lemma alphabeta_run_ok:
  assumes tl: "time_left A = Some clock"
  shows "run_ok clock (TIMER_THRESHOLD A) w (alphabeta A B game d alpha beta w)"
proof -
  obtain r w1 where c: "check_timer A w = (r, w1)" by (cases "check_timer A w")
  with run_ok_check_timer[OF tl, of w] have ct: "run_ok clock (TIMER_THRESHOLD A) w (r, w1)"
    by simp
  show ?thesis
  proof (cases r)
    case (Inl e)
    with ct c show ?thesis by (auto simp: alphabeta_def intro: run_ok_Inl)
  next
    case (Inr u)
    obtain r2 w2 where m: "max_value A B game d alpha beta w1 = (r2, w2)"
      by (cases "max_value A B game d alpha beta w1")
    from search_run_ok[OF tl, of w1 B game d alpha beta] m
    have "run_ok clock (TIMER_THRESHOLD A) w1 (r2, w2)" by simp
    with ct Inr have "run_ok clock (TIMER_THRESHOLD A) w (r2, w2)"
      by (auto intro: run_ok_trans)
    with c Inr m show ?thesis
      by (cases r2) (auto simp: alphabeta_def intro: run_ok_Inl run_ok_Inr)
  qed
qed

lemma max_value_reads_mono:
  assumes tl: "time_left A = Some clock"
  shows "clock_reads w \<le> clock_reads (snd (max_value A B game d alpha beta w))"
  using search_run_ok[OF tl, of w B game d alpha beta] by (simp add: run_ok_def span_ok_def)

lemma alphabeta_progress:
  assumes tl: "time_left A = Some clock"
  shows "clock_reads w < clock_reads (snd (alphabeta A B game d alpha beta w))"
proof -
  obtain r w1 where c: "check_timer A w = (r, w1)" by (cases "check_timer A w")
  then have w1: "clock_reads w1 = Suc (clock_reads w)"
    using tl by (auto simp: check_timer_def split: if_splits)
  show ?thesis
  proof (cases r)
    case (Inl e)
    with c w1 show ?thesis by (simp add: alphabeta_def)
  next
    case (Inr u)
    from max_value_reads_mono[OF tl, of w1 B game d alpha beta] w1
    have "clock_reads w < clock_reads (snd (max_value A B game d alpha beta w1))" by simp
    with c Inr show ?thesis
      by (auto simp: alphabeta_def split: prod.splits sum.splits)
  qed
qed

lemma alphabeta_Inl:
  assumes tl: "time_left A = Some clock"
    and run: "alphabeta A B game d alpha beta w = (Inl e, w')"
  shows "e = SearchTimeout \<and> clock_reads w < clock_reads w'
       \<and> clock (clock_reads w' - 1) < TIMER_THRESHOLD A
       \<and> rng w' = rng w \<and> rand_draws w' = rand_draws w"
  using alphabeta_run_ok[OF tl, of w B game d alpha beta] run
  by (simp add: run_ok_def span_ok_def err_of_def)

lemma alphabeta_Inr:
  assumes tl: "time_left A = Some clock"
    and run: "alphabeta A B game d alpha beta w = (Inr m, w')"
  shows "clock_reads w < clock_reads w'
       \<and> (\<forall>k. clock_reads w \<le> k \<and> k < clock_reads w' \<longrightarrow> \<not> clock k < TIMER_THRESHOLD A)
       \<and> rng w' = rng w \<and> rand_draws w' = rand_draws w"
  using alphabeta_run_ok[OF tl, of w B game d alpha beta] run
    alphabeta_progress[OF tl, of w B game d alpha beta]
  by (simp add: run_ok_def span_ok_def err_of_def)

lemma alphabeta_never_expires:
  assumes tl: "time_left A = Some clock"
    and ok: "\<forall>k\<ge>clock_reads w. \<not> clock k < TIMER_THRESHOLD A"
  shows "\<exists>m w'. alphabeta A B game d alpha beta w = (Inr m, w')"
proof -
  obtain r w' where run: "alphabeta A B game d alpha beta w = (r, w')"
    by (cases "alphabeta A B game d alpha beta w")
  show ?thesis
  proof (cases r)
    case (Inl e)
    with alphabeta_Inl[OF tl, of B game d alpha beta w e w'] run
    have "clock_reads w < clock_reads w'" "clock (clock_reads w' - 1) < TIMER_THRESHOLD A"
      by simp_all
    moreover from this(1) have "clock_reads w \<le> clock_reads w' - 1" by simp
    ultimately show ?thesis using ok by blast
  next
    case (Inr m)
    with run show ?thesis by simp
  qed
qed

lemma max_loop_move:
  "max_loop A B game d moves alpha beta v b w = (Inr (v', m), w') \<Longrightarrow> m = b \<or> m \<in> set moves"
proof (induction moves arbitrary: alpha v b w)
  case Nil
  then show ?case by simp
next
  case (Cons mv moves)
  from Cons.prems obtain s mc w1 where
    child: "min_value A B (forecast_move B game mv) d alpha beta
              (note_event (EvForecast game mv) w) = (Inr (s, mc), w1)"
    by (auto split: prod.splits sum.splits)
  show ?case
  proof (cases "beta \<le> s")
    case True
    with Cons.prems child show ?thesis by (auto split: if_splits)
  next
    case False
    with Cons.prems child
    have "max_loop A B game d moves (max alpha s) beta
            (if v < s then s else v) (if v < s then mv else b) w1 = (Inr (v', m), w')"
      by (auto split: if_splits)
    from Cons.IH[OF this] show ?thesis by (auto split: if_splits)
  qed
qed

lemma alphabeta_move:
  assumes "alphabeta A B game (Suc d) alpha beta w = (Inr m, w')"
  shows "m = NO_MOVE \<or> m \<in> set (get_legal_moves B game (active_player B game))"
proof -
  from assms obtain v w1 where
    run: "max_value A B game (Suc d) alpha beta w1 = (Inr (v, m), w')"
    unfolding alphabeta_def by (auto split: prod.splits sum.splits)
  from max_value_Suc[OF run] show ?thesis
    by (auto dest: max_loop_move)
qed

lemma completed_depths_depth:
  "completed_depths A B game n w = Some (depth, m, w') \<Longrightarrow> depth = Suc n"
  by (induction n arbitrary: depth m w')
     (auto split: option.splits prod.splits sum.splits)

lemma completed_depths_move:
  assumes "completed_depths A B game n w = Some (depth, m, w')"
  shows "m = NO_MOVE \<or> m \<in> set (get_legal_moves B game (active_player B game))"
proof (cases n)
  case 0
  with assms show ?thesis by simp
next
  case (Suc k)
  with assms obtain d0 m0 w1 where
    prev: "completed_depths A B game k w = Some (d0, m0, w1)"
    and run: "alphabeta A B game d0 NegInf PosInf w1 = (Inr m, w')"
    by (auto split: option.splits prod.splits sum.splits)
  from completed_depths_depth[OF prev] run
  have "alphabeta A B game (Suc k) NegInf PosInf w1 = (Inr m, w')" by simp
  then show ?thesis by (rule alphabeta_move)
qed

lemma deepening_unroll:
  "completed_depths A B game n w = Some (depth, m, w1)
     \<Longrightarrow> deepening A B game 1 NO_MOVE w = deepening A B game depth m w1"
proof (induction n arbitrary: depth m w1)
  case 0
  then show ?case by simp
next
  case (Suc n)
  from Suc.prems obtain d0 m0 w0 where
    prev: "completed_depths A B game n w = Some (d0, m0, w0)"
    and run: "alphabeta A B game d0 NegInf PosInf w0 = (Inr m, w1)"
    and d: "depth = d0 + 1"
    by (auto split: option.splits prod.splits sum.splits)
  have "deepening A B game 1 NO_MOVE w = deepening A B game d0 m0 w0"
    by (rule Suc.IH[OF prev])
  also have "\<dots> = deepening A B game depth m w1"
    by (subst deepening.simps) (simp add: run d)
  finally show ?case .
qed

lemma deepening_stops:
  assumes tl: "time_left A = Some clock"
    and expired: "clock n < TIMER_THRESHOLD A"
  shows "completed_depths A B game k w0 = Some (depth, m, w1) \<Longrightarrow> clock_reads w1 \<le> n
     \<Longrightarrow> \<exists>k' depth' m' w1' w2.
           completed_depths A B game k' w0 = Some (depth', m', w1')
           \<and> alphabeta A B game depth' NegInf PosInf w1' = (Inl SearchTimeout, w2)
           \<and> deepening A B game depth m w1 = Some ((SearchTimeout, m'), w2)"
proof (induction "n - clock_reads w1" arbitrary: k depth m w1 rule: less_induct)
  case less
  obtain r w2 where run: "alphabeta A B game depth NegInf PosInf w1 = (r, w2)"
    by (cases "alphabeta A B game depth NegInf PosInf w1")
  show ?case
  proof (cases r)
    case (Inl e)
    with alphabeta_Inl[OF tl, of B game depth NegInf PosInf w1 e w2] run
    have e: "e = SearchTimeout" by simp
    have "deepening A B game depth m w1 = Some ((SearchTimeout, m), w2)"
      by (subst deepening.simps) (simp add: run Inl e)
    with less.prems(1) run Inl e show ?thesis by blast
  next
    case (Inr m2)
    with alphabeta_Inr[OF tl, of B game depth NegInf PosInf w1 m2 w2] run
    have prog: "clock_reads w1 < clock_reads w2"
      and ok: "\<forall>k. clock_reads w1 \<le> k \<and> k < clock_reads w2 \<longrightarrow> \<not> clock k < TIMER_THRESHOLD A"
      by simp_all
    from ok expired less.prems(2) have le: "clock_reads w2 \<le> n"
      by (meson not_less)
    have next_done: "completed_depths A B game (Suc k) w0 = Some (depth + 1, m2, w2)"
      using less.prems(1) run Inr by simp
    have "n - clock_reads w2 < n - clock_reads w1" using prog le by simp
    from less.hyps[OF this next_done le] obtain k' depth' m' w1' w3 where
      res: "completed_depths A B game k' w0 = Some (depth', m', w1')"
        "alphabeta A B game depth' NegInf PosInf w1' = (Inl SearchTimeout, w3)"
        "deepening A B game (depth + 1) m2 w2 = Some ((SearchTimeout, m'), w3)"
      by blast
    have "deepening A B game depth m w1 = deepening A B game (depth + 1) m2 w2"
      by (subst deepening.simps) (simp add: run Inr)
    with res show ?thesis by metis
  qed
qed

lemma deepening_Some_expired:
  assumes run: "deepening A B game depth chosen w = Some y"
  shows "time_left A = Some clock \<longrightarrow> (\<exists>k\<ge>clock_reads w. clock k < TIMER_THRESHOLD A)"
proof (rule deepening.raw_induct[where P = "\<lambda>A B game depth chosen w y.
          time_left A = Some clock \<longrightarrow> (\<exists>k\<ge>clock_reads w. clock k < TIMER_THRESHOLD A)",
        OF _ run], goal_cases)
  case (1 f A B game depth chosen w y)
  show ?case
  proof
    assume tl: "time_left A = Some clock"
    obtain r w1 where run: "alphabeta A B game depth NegInf PosInf w = (r, w1)"
      by (cases "alphabeta A B game depth NegInf PosInf w")
    show "\<exists>k\<ge>clock_reads w. clock k < TIMER_THRESHOLD A"
    proof (cases r)
      case (Inl e)
      with alphabeta_Inl[OF tl, of B game depth NegInf PosInf w e w1] run
      have "clock_reads w < clock_reads w1" "clock (clock_reads w1 - 1) < TIMER_THRESHOLD A"
        by simp_all
      moreover from this(1) have "clock_reads w \<le> clock_reads w1 - 1" by simp
      ultimately show ?thesis by blast
    next
      case (Inr m)
      with 1(2) run have "f A B game (depth + 1) m w1 = Some y" by simp
      from 1(1)[OF this] tl obtain k where
        k: "clock_reads w1 \<le> k" "clock k < TIMER_THRESHOLD A" by blast
      from alphabeta_Inr[OF tl, of B game depth NegInf PosInf w m w1] run Inr
      have "clock_reads w < clock_reads w1" by simp
      with k show ?thesis by (meson le_trans less_imp_le)
    qed
  qed
qed

lemma deepening_diverges:
  assumes "time_left A = Some clock"
    and "\<forall>k\<ge>clock_reads w. \<not> clock k < TIMER_THRESHOLD A"
  shows "deepening A B game depth chosen w = None"
proof (cases "deepening A B game depth chosen w")
  case None
  then show ?thesis .
next
  case (Some y)
  from deepening_Some_expired[OF Some, of clock] assms show ?thesis by blast
qed

lemma completed_depths_always:
  assumes tl: "time_left A = Some clock"
    and ok: "\<forall>k\<ge>clock_reads w. \<not> clock k < TIMER_THRESHOLD A"
  shows "\<exists>m w1. completed_depths A B game n w = Some (Suc n, m, w1)
           \<and> clock_reads w \<le> clock_reads w1"
proof (induction n)
  case 0
  show ?case by simp
next
  case (Suc n)
  then obtain m0 w0 where prev: "completed_depths A B game n w = Some (Suc n, m0, w0)"
    and le: "clock_reads w \<le> clock_reads w0" by blast
  from ok le have "\<forall>k\<ge>clock_reads w0. \<not> clock k < TIMER_THRESHOLD A" by auto
  from alphabeta_never_expires[OF tl this] obtain m w1 where
    run: "alphabeta A B game (Suc n) NegInf PosInf w0 = (Inr m, w1)" by blast
  from alphabeta_Inr[OF tl run] le have "clock_reads w \<le> clock_reads w1" by simp
  with prev run show ?case by simp
qed

section \<open>Iterative deepening in \<open>get_move\<close>\<close>

lemma deepening_frame:
  assumes run: "deepening A B game depth chosen w = Some y"
  shows "time_left A = Some clock \<longrightarrow> rng (snd y) = rng w \<and> rand_draws (snd y) = rand_draws w"
proof (rule deepening.raw_induct[where P = "\<lambda>A B game depth chosen w y.
          time_left A = Some clock \<longrightarrow> rng (snd y) = rng w \<and> rand_draws (snd y) = rand_draws w",
        OF _ run], goal_cases)
  case (1 f A B game depth chosen w y)
  show ?case
  proof
    assume tl: "time_left A = Some clock"
    obtain r w1 where run: "alphabeta A B game depth NegInf PosInf w = (r, w1)"
      by (cases "alphabeta A B game depth NegInf PosInf w")
    show "rng (snd y) = rng w \<and> rand_draws (snd y) = rand_draws w"
    proof (cases r)
      case (Inl e)
      with alphabeta_Inl[OF tl, of B game depth NegInf PosInf w e w1] run 1(2)
      show ?thesis by auto
    next
      case (Inr m)
      with 1(2) run have "f A B game (depth + 1) m w1 = Some y" by simp
      from 1(1)[OF this] tl alphabeta_Inr[OF tl, of B game depth NegInf PosInf w m w1] run Inr
      show ?thesis by simp
    qed
  qed
qed

lemma get_move_unfold:
  assumes legal: "get_legal_moves B game (active_player B game) \<noteq> []"
    and loop: "deepening (A\<lparr>time_left := Some clock\<rparr>) B game 1 NO_MOVE
                 (note_event (EvLegalMoves game) w) = Some ((SearchTimeout, m), w2)"
  shows "get_move A B game clock w =
           Some (if m = NO_MOVE
                 then (Inr (get_legal_moves B game (active_player B game)
                              ! (rng w2 (rand_draws w2)
                                   mod length (get_legal_moves B game (active_player B game)))),
                       A\<lparr>time_left := Some clock\<rparr>, game,
                       w2\<lparr>rand_draws := Suc (rand_draws w2)\<rparr>)
                 else (Inr m, A\<lparr>time_left := Some clock\<rparr>, game, w2))"
  using legal loop by (simp add: get_move_def random_choice_def Let_def)

text \<open>
  Claim C2, as amended. When the clock eventually reads below the threshold, the loop
  of \<open>get_move\<close> completes some number \<open>k\<close> of iterations, each assigning the result
  of a completed search to the recorded move, and the next search is aborted by the
  timeout without assigning anything. \<open>get_move\<close> then returns the recorded move, that
  of the last completed search, if it is not the sentinel \<open>(-1, -1)\<close>; if it is the
  sentinel (no search completed, or the last completed search itself returned the
  sentinel), it returns a randomly drawn element of the legal moves enumerated at the
  top.
\<close>

theorem get_move_last_completed_depth:
  assumes "get_legal_moves B game (active_player B game) \<noteq> []"
    and "clock_reads w \<le> n"
    and "clock n < TIMER_THRESHOLD A"
  shows "\<exists>k depth m w1 w2.
           completed_depths (A\<lparr>time_left := Some clock\<rparr>) B game k
               (note_event (EvLegalMoves game) w) = Some (depth, m, w1)
           \<and> alphabeta (A\<lparr>time_left := Some clock\<rparr>) B game depth NegInf PosInf w1
               = (Inl SearchTimeout, w2)
           \<and> get_move A B game clock w =
               Some (if m = NO_MOVE
                     then (Inr (get_legal_moves B game (active_player B game)
                                  ! (rng w2 (rand_draws w2)
                                       mod length (get_legal_moves B game (active_player B game)))),
                           A\<lparr>time_left := Some clock\<rparr>, game,
                           w2\<lparr>rand_draws := Suc (rand_draws w2)\<rparr>)
                     else (Inr m, A\<lparr>time_left := Some clock\<rparr>, game, w2))"
proof -
  let ?A = "A\<lparr>time_left := Some clock\<rparr>" and ?w0 = "note_event (EvLegalMoves game) w"
  have tl: "time_left ?A = Some clock" by simp
  have ex: "clock n < TIMER_THRESHOLD ?A" using assms(3) by simp
  have start: "completed_depths ?A B game 0 ?w0 = Some (1, NO_MOVE, ?w0)" by simp
  have le: "clock_reads ?w0 \<le> n" using assms(2) by (simp add: note_event_def)
  from deepening_stops[OF tl ex start le] obtain k depth m w1 w2 where
    fin: "completed_depths ?A B game k ?w0 = Some (depth, m, w1)"
    and stop: "alphabeta ?A B game depth NegInf PosInf w1 = (Inl SearchTimeout, w2)"
    and loop: "deepening ?A B game 1 NO_MOVE ?w0 = Some ((SearchTimeout, m), w2)"
    by blast
  from fin stop get_move_unfold[OF assms(1) loop] show ?thesis
    by blast
qed

theorem get_move_last_completed_depth_witness:
  "\<exists>k depth m w1 w2.
     completed_depths (toy_agent\<lparr>time_left := Some countdown\<rparr>) toy_board 0 k
         (note_event (EvLegalMoves 0) toy_world) = Some (depth, m, w1)
     \<and> alphabeta (toy_agent\<lparr>time_left := Some countdown\<rparr>) toy_board 0 depth NegInf PosInf w1
         = (Inl SearchTimeout, w2)
     \<and> get_move toy_agent toy_board 0 countdown toy_world =
         Some (if m = NO_MOVE
               then (Inr (get_legal_moves toy_board 0 (active_player toy_board 0)
                            ! (rng w2 (rand_draws w2)
                                 mod length (get_legal_moves toy_board 0 (active_player toy_board 0)))),
                     toy_agent\<lparr>time_left := Some countdown\<rparr>, 0,
                     w2\<lparr>rand_draws := Suc (rand_draws w2)\<rparr>)
               else (Inr m, toy_agent\<lparr>time_left := Some countdown\<rparr>, 0, w2))"
proof -
  have "get_legal_moves toy_board 0 (active_player toy_board 0) \<noteq> []"
    by (simp add: toy_board_def)
  moreover have "clock_reads toy_world \<le> 15"
    by (simp add: toy_world_def)
  moreover have "countdown 15 < TIMER_THRESHOLD toy_agent"
    by (simp add: countdown_def toy_agent_def CustomPlayer_def)
  ultimately show ?thesis by (rule get_move_last_completed_depth)
qed

text \<open>
  Claim C2 as stated fails. From state \<open>10\<close> of the small game every move of the
  agent leads to a lost state, so every root move scores \<open>-inf\<close> and each completed
  depth returns the sentinel. With the countdown clock three depths complete; the
  fourth is aborted, and \<open>get_move\<close> returns a randomly drawn move although depths
  did complete.
\<close>

theorem random_fallback_after_completed_depths:
  "map_option (fst \<circ> snd)
       (completed_depths (toy_agent\<lparr>time_left := Some countdown\<rparr>) toy_board 10 3
          (note_event (EvLegalMoves 10) toy_world)) = Some NO_MOVE
   \<and> rand_draws toy_world = 0
   \<and> map_option fst (get_move toy_agent toy_board 10 countdown toy_world) = Some (Inr (0, 1))
   \<and> map_option (rand_draws \<circ> snd \<circ> snd \<circ> snd)
         (get_move toy_agent toy_board 10 countdown toy_world) = Some 1"
  by code_simp

text \<open>
  Claim C3, as amended. In a state with a legal move, for every clock that eventually
  reads below the threshold (also one that does so at the first read), \<open>get_move\<close>
  returns, its result is a move and no exception, and the move is one of the legal
  moves of the active player.
\<close>

theorem get_move_returns_legal_move:
  assumes "get_legal_moves B game (active_player B game) \<noteq> []"
    and "clock_reads w \<le> n"
    and "clock n < TIMER_THRESHOLD A"
  shows "\<exists>m w'. get_move A B game clock w
                    = Some (Inr m, A\<lparr>time_left := Some clock\<rparr>, game, w')
           \<and> m \<in> set (get_legal_moves B game (active_player B game))"
proof -
  let ?A = "A\<lparr>time_left := Some clock\<rparr>" and ?w0 = "note_event (EvLegalMoves game) w"
  let ?legal = "get_legal_moves B game (active_player B game)"
  have tl: "time_left ?A = Some clock" by simp
  have ex: "clock n < TIMER_THRESHOLD ?A" using assms(3) by simp
  have start: "completed_depths ?A B game 0 ?w0 = Some (1, NO_MOVE, ?w0)" by simp
  have le: "clock_reads ?w0 \<le> n" using assms(2) by (simp add: note_event_def)
  from deepening_stops[OF tl ex start le] obtain k depth m w1 w2 where
    fin: "completed_depths ?A B game k ?w0 = Some (depth, m, w1)"
    and loop1: "deepening ?A B game 1 NO_MOVE ?w0 = Some ((SearchTimeout, m), w2)"
    by blast
  note res = get_move_unfold[OF assms(1) loop1]
  show ?thesis
  proof (cases "m = NO_MOVE")
    case True
    have "?legal ! (rng w2 (rand_draws w2) mod length ?legal) \<in> set ?legal"
      using assms(1) by simp
    with res True show ?thesis by simp
  next
    case False
    with completed_depths_move[OF fin] have "m \<in> set ?legal" by simp
    with res False show ?thesis by simp
  qed
qed

theorem get_move_returns_legal_move_witness:
  "\<exists>m w'. get_move toy_agent toy_board 0 countdown (toy_world\<lparr>clock_reads := 15\<rparr>)
             = Some (Inr m, toy_agent\<lparr>time_left := Some countdown\<rparr>, 0, w')
         \<and> m \<in> set (get_legal_moves toy_board 0 (active_player toy_board 0))"
proof -
  have "get_legal_moves toy_board 0 (active_player toy_board 0) \<noteq> []"
    by (simp add: toy_board_def)
  moreover have "clock_reads (toy_world\<lparr>clock_reads := 15\<rparr>) \<le> 15"
    by simp
  moreover have "countdown 15 < TIMER_THRESHOLD toy_agent"
    by (simp add: countdown_def toy_agent_def CustomPlayer_def)
  ultimately show ?thesis by (rule get_move_returns_legal_move)
qed

text \<open>
  Claim C3 as stated fails for a clock that never reads below the threshold: the call
  does not return.
\<close>

theorem get_move_steady_clock_never_returns:
  "get_move toy_agent toy_board 0 steady_clock toy_world = None"
proof -
  have "deepening (toy_agent\<lparr>time_left := Some steady_clock\<rparr>) toy_board 0 1 NO_MOVE
          (note_event (EvLegalMoves 0) toy_world) = None"
    by (rule deepening_diverges[where clock = steady_clock])
       (simp_all add: steady_clock_def toy_agent_def CustomPlayer_def)
  then show ?thesis by (simp add: get_move_def toy_board_def)
qed

lemma deepening_after_completed:
  assumes "completed_depths A B game n w = Some (depth, m, w1)"
    and "alphabeta A B game depth NegInf PosInf w1 = (Inl e, w2)"
  shows "deepening A B game 1 NO_MOVE w = Some ((e, m), w2)"
proof -
  have "deepening A B game 1 NO_MOVE w = deepening A B game depth m w1"
    by (rule deepening_unroll[OF assms(1)])
  also have "\<dots> = Some ((e, m), w2)"
    by (subst deepening.simps) (simp add: assms(2))
  finally show ?thesis .
qed

text \<open>
  Claim C8. In a state with a legal move and with a clock that never reads below the
  threshold, \<open>get_move\<close> never returns: for every \<open>n\<close> its loop completes \<open>n\<close>
  iterations, none raising, and then holds \<open>depth = n + 1\<close>; so the searches are
  called with the depths \<open>1, 2, 3, \<dots>\<close>, the \<open>n\<close>-th with depth \<open>n\<close>. These
  iterations are those of the loop of \<open>get_move\<close>, and the loop stops only on the
  timeout: for any clock, when \<open>n\<close> iterations complete and the next search is aborted
  by the timeout, that search is the one of depth \<open>n + 1\<close> and \<open>get_move\<close> returns with
  the move recorded by the \<open>n\<close>-th iteration.
\<close>

theorem iterative_deepening_never_stops:
  assumes "get_legal_moves B game (active_player B game) \<noteq> []"
    and "\<forall>k\<ge>clock_reads w. \<not> clock k < TIMER_THRESHOLD A"
  shows "get_move A B game clock w = None
       \<and> (\<forall>n. \<exists>m w1.
             completed_depths (A\<lparr>time_left := Some clock\<rparr>) B game n
                 (note_event (EvLegalMoves game) w) = Some (n + 1, m, w1))
       \<and> (\<forall>c n depth m w1 w2.
             completed_depths (A\<lparr>time_left := Some c\<rparr>) B game n
                 (note_event (EvLegalMoves game) w) = Some (depth, m, w1)
             \<and> alphabeta (A\<lparr>time_left := Some c\<rparr>) B game depth NegInf PosInf w1
                 = (Inl SearchTimeout, w2)
             \<longrightarrow> depth = n + 1
               \<and> get_move A B game c w =
                   Some (if m = NO_MOVE
                         then (Inr (get_legal_moves B game (active_player B game)
                                      ! (rng w2 (rand_draws w2)
                                           mod length
                                             (get_legal_moves B game (active_player B game)))),
                               A\<lparr>time_left := Some c\<rparr>, game,
                               w2\<lparr>rand_draws := Suc (rand_draws w2)\<rparr>)
                         else (Inr m, A\<lparr>time_left := Some c\<rparr>, game, w2)))"
proof -
  let ?A = "A\<lparr>time_left := Some clock\<rparr>" and ?w0 = "note_event (EvLegalMoves game) w"
  have tl: "time_left ?A = Some clock" by simp
  have ok: "\<forall>k\<ge>clock_reads ?w0. \<not> clock k < TIMER_THRESHOLD ?A"
    using assms(2) by (simp add: note_event_def)
  have "deepening ?A B game 1 NO_MOVE ?w0 = None"
    by (rule deepening_diverges[OF tl ok])
  with assms(1) have 1: "get_move A B game clock w = None"
    by (simp add: get_move_def)
  have 2: "\<exists>m w1. completed_depths ?A B game n ?w0 = Some (n + 1, m, w1)" for n
    using completed_depths_always[OF tl ok, of B game n] by auto
  have 3: "depth = n + 1
       \<and> get_move A B game c w =
           Some (if m = NO_MOVE
                 then (Inr (get_legal_moves B game (active_player B game)
                              ! (rng w2 (rand_draws w2)
                                   mod length (get_legal_moves B game (active_player B game)))),
                       A\<lparr>time_left := Some c\<rparr>, game,
                       w2\<lparr>rand_draws := Suc (rand_draws w2)\<rparr>)
                 else (Inr m, A\<lparr>time_left := Some c\<rparr>, game, w2))"
    if fin: "completed_depths (A\<lparr>time_left := Some c\<rparr>) B game n ?w0 = Some (depth, m, w1)"
      and stop: "alphabeta (A\<lparr>time_left := Some c\<rparr>) B game depth NegInf PosInf w1
                   = (Inl SearchTimeout, w2)"
    for c n depth m w1 w2
  proof -
    from completed_depths_depth[OF fin] have "depth = n + 1" by simp
    moreover from deepening_after_completed[OF fin stop]
    have "deepening (A\<lparr>time_left := Some c\<rparr>) B game 1 NO_MOVE ?w0
            = Some ((SearchTimeout, m), w2)" .
    from get_move_unfold[OF assms(1) this]
    have "get_move A B game c w =
           Some (if m = NO_MOVE
                 then (Inr (get_legal_moves B game (active_player B game)
                              ! (rng w2 (rand_draws w2)
                                   mod length (get_legal_moves B game (active_player B game)))),
                       A\<lparr>time_left := Some c\<rparr>, game,
                       w2\<lparr>rand_draws := Suc (rand_draws w2)\<rparr>)
                 else (Inr m, A\<lparr>time_left := Some c\<rparr>, game, w2))" .
    ultimately show ?thesis by simp
  qed
  from 1 2 3 show ?thesis by blast
qed

theorem iterative_deepening_never_stops_witness:
  "get_move toy_agent toy_board 0 steady_clock toy_world = None
   \<and> (\<forall>n. \<exists>m w1.
         completed_depths (toy_agent\<lparr>time_left := Some steady_clock\<rparr>) toy_board 0 n
             (note_event (EvLegalMoves 0) toy_world) = Some (n + 1, m, w1))
   \<and> map_option fst
         (completed_depths (toy_agent\<lparr>time_left := Some countdown\<rparr>) toy_board 0 3
            (note_event (EvLegalMoves 0) toy_world)) = Some 4
   \<and> map_option fst (get_move toy_agent toy_board 0 countdown toy_world) = Some (Inr (0, 0))"
proof -
  let ?Ac = "toy_agent\<lparr>time_left := Some countdown\<rparr>"
  let ?w0 = "note_event (EvLegalMoves 0) toy_world"
  have legal: "get_legal_moves toy_board 0 (active_player toy_board 0) \<noteq> []"
    by (simp add: toy_board_def)
  have steady: "\<forall>k\<ge>clock_reads toy_world. \<not> steady_clock k < TIMER_THRESHOLD toy_agent"
    by (simp add: steady_clock_def toy_agent_def CustomPlayer_def)
  note loop = iterative_deepening_never_stops[OF legal steady]
  have d: "map_option fst (completed_depths ?Ac toy_board 0 3 ?w0) = Some 4"
    by code_simp
  have mv: "map_option (fst \<circ> snd) (completed_depths ?Ac toy_board 0 3 ?w0) = Some (0, 0)"
    by code_simp
  have ab: "fst (alphabeta ?Ac toy_board 0 4 NegInf PosInf
                  (snd (snd (the (completed_depths ?Ac toy_board 0 3 ?w0)))))
              = Inl SearchTimeout"
    by code_simp
  from d mv obtain w1 where fin: "completed_depths ?Ac toy_board 0 3 ?w0 = Some (4, (0, 0), w1)"
    by (cases "completed_depths ?Ac toy_board 0 3 ?w0") auto
  with ab obtain w2 where
    stop: "alphabeta ?Ac toy_board 0 4 NegInf PosInf w1 = (Inl SearchTimeout, w2)"
    by (cases "alphabeta ?Ac toy_board 0 4 NegInf PosInf w1") auto
  from loop fin stop
  have "map_option fst (get_move toy_agent toy_board 0 countdown toy_world) = Some (Inr (0, 0))"
    by (auto simp: NO_MOVE_def)
  with loop d show ?thesis by blast
qed

text \<open>
  Claim C9, as amended. A call of \<open>get_move\<close> leaves the game state, the evaluator,
  the timer threshold and the identity of the agent as they were. It does assign the
  clock to the attribute \<open>time_left\<close> of the agent, and besides reading the clock it
  draws from the random generator: exactly once when it uses the fallback (the recorded
  move is the sentinel when the timeout comes), not at all otherwise. What the
  attribute \<open>time_left\<close> held before the call has no influence on the call.
\<close>

theorem get_move_effects:
  assumes "get_move A B game clock w = Some (r, A', game', w')"
  shows "A' = A\<lparr>time_left := Some clock\<rparr>
       \<and> score A' = score A \<and> TIMER_THRESHOLD A' = TIMER_THRESHOLD A \<and> ident A' = ident A
       \<and> game' = game
       \<and> rng w' = rng w
       \<and> rand_draws w' =
           (if get_legal_moves B game (active_player B game) \<noteq> []
               \<and> map_option fst
                     (deepening (A\<lparr>time_left := Some clock\<rparr>) B game 1 NO_MOVE
                        (note_event (EvLegalMoves game) w))
                   = Some (SearchTimeout, NO_MOVE)
            then Suc (rand_draws w) else rand_draws w)
       \<and> get_move (A\<lparr>time_left := t\<rparr>) B game clock w = get_move A B game clock w"
proof -
  let ?A = "A\<lparr>time_left := Some clock\<rparr>" and ?w0 = "note_event (EvLegalMoves game) w"
  let ?legal = "get_legal_moves B game (active_player B game)"
  have indep: "get_move (A\<lparr>time_left := t\<rparr>) B game clock w = get_move A B game clock w"
    by (simp add: get_move_def)
  have w0: "rng ?w0 = rng w" "rand_draws ?w0 = rand_draws w"
    by (simp_all add: note_event_def)
  have "A' = ?A \<and> game' = game \<and> rng w' = rng w
      \<and> rand_draws w' =
          (if ?legal \<noteq> []
              \<and> map_option fst (deepening ?A B game 1 NO_MOVE ?w0) = Some (SearchTimeout, NO_MOVE)
           then Suc (rand_draws w) else rand_draws w)"
  proof (cases "?legal = []")
    case True
    with assms w0 show ?thesis by (auto simp: get_move_def)
  next
    case False
    have "deepening ?A B game 1 NO_MOVE ?w0 \<noteq> None"
    proof
      assume "deepening ?A B game 1 NO_MOVE ?w0 = None"
      with assms False show False by (simp add: get_move_def Let_def)
    qed
    then obtain e c w1 where
      loop: "deepening ?A B game 1 NO_MOVE ?w0 = Some ((e, c), w1)"
      by (cases "deepening ?A B game 1 NO_MOVE ?w0") auto
    from deepening_frame[OF loop, of clock] w0
    have w1: "rng w1 = rng w" "rand_draws w1 = rand_draws w" by simp_all
    from assms False loop w1 show ?thesis
      by (cases e) (auto simp: get_move_def random_choice_def Let_def split: if_splits)
  qed
  with indep show ?thesis by simp
qed

theorem get_move_effects_witness:
  "(\<exists>A' game' w'.
      get_move toy_agent toy_board 10 countdown toy_world = Some (Inr (0, 1), A', game', w')
      \<and> A' = toy_agent\<lparr>time_left := Some countdown\<rparr>
      \<and> score A' = score toy_agent \<and> TIMER_THRESHOLD A' = TIMER_THRESHOLD toy_agent
      \<and> ident A' = ident toy_agent
      \<and> game' = 10 \<and> rng w' = rng toy_world \<and> rand_draws w' = Suc (rand_draws toy_world))
   \<and> (\<exists>A' game' w'.
      get_move toy_agent toy_board 0 countdown toy_world = Some (Inr (0, 0), A', game', w')
      \<and> A' = toy_agent\<lparr>time_left := Some countdown\<rparr>
      \<and> game' = 0 \<and> rng w' = rng toy_world \<and> rand_draws w' = rand_draws toy_world)
   \<and> get_move (toy_agent\<lparr>time_left := Some steady_clock\<rparr>) toy_board 10 countdown toy_world
       = get_move toy_agent toy_board 10 countdown toy_world"
proof -
  let ?Ac = "toy_agent\<lparr>time_left := Some countdown\<rparr>"
  have r10: "map_option fst (get_move toy_agent toy_board 10 countdown toy_world)
               = Some (Inr (0, 1))"
    by code_simp
  then obtain A1 g1 w1 where
    run10: "get_move toy_agent toy_board 10 countdown toy_world = Some (Inr (0, 1), A1, g1, w1)"
    by (cases "get_move toy_agent toy_board 10 countdown toy_world") auto
  have fb10: "get_legal_moves toy_board 10 (active_player toy_board 10) \<noteq> []
      \<and> map_option fst (deepening ?Ac toy_board 10 1 NO_MOVE
                           (note_event (EvLegalMoves 10) toy_world))
          = Some (SearchTimeout, NO_MOVE)"
    by code_simp
  have r0: "map_option fst (get_move toy_agent toy_board 0 countdown toy_world)
              = Some (Inr (0, 0))"
    by code_simp
  then obtain A0 g0 w0 where
    run0: "get_move toy_agent toy_board 0 countdown toy_world = Some (Inr (0, 0), A0, g0, w0)"
    by (cases "get_move toy_agent toy_board 0 countdown toy_world") auto
  have fb0: "map_option fst (deepening ?Ac toy_board 0 1 NO_MOVE
                               (note_event (EvLegalMoves 0) toy_world))
               \<noteq> Some (SearchTimeout, NO_MOVE)"
    by code_simp
  from get_move_effects[OF run10, of "Some steady_clock"] fb10
  have 1: "A1 = ?Ac \<and> score A1 = score toy_agent
      \<and> TIMER_THRESHOLD A1 = TIMER_THRESHOLD toy_agent \<and> ident A1 = ident toy_agent
      \<and> g1 = 10 \<and> rng w1 = rng toy_world \<and> rand_draws w1 = Suc (rand_draws toy_world)"
    and 3: "get_move (toy_agent\<lparr>time_left := Some steady_clock\<rparr>) toy_board 10 countdown
              toy_world = get_move toy_agent toy_board 10 countdown toy_world"
    by simp_all
  from get_move_effects[OF run0, of None] fb0
  have 2: "A0 = ?Ac \<and> g0 = 0 \<and> rng w0 = rng toy_world \<and> rand_draws w0 = rand_draws toy_world"
    by simp
  from run10 1 run0 2 3 show ?thesis by blast
qed

text \<open>
  Claim C9 as stated fails: after a call the attribute \<open>time_left\<close> of the agent holds
  the clock of that call, and a call that uses the fallback has advanced the random
  generator.
\<close>

theorem get_move_changes_agent_and_generator:
  "time_left toy_agent = None
   \<and> map_option (time_left \<circ> fst \<circ> snd) (get_move toy_agent toy_board 2 countdown toy_world)
       = Some (Some countdown)
   \<and> rand_draws toy_world = 0
   \<and> map_option (rand_draws \<circ> snd \<circ> snd \<circ> snd)
         (get_move toy_agent toy_board 10 countdown toy_world) = Some 1"
proof -
  have "time_left toy_agent = None"
    by (simp add: toy_agent_def CustomPlayer_def)
  moreover have "map_option (time_left \<circ> fst \<circ> snd)
                   (get_move toy_agent toy_board 2 countdown toy_world) = Some (Some countdown)"
    by (simp add: get_move_def toy_board_def)
  moreover have "rand_draws toy_world = 0"
    by (simp add: toy_world_def)
  moreover have "map_option (rand_draws \<circ> snd \<circ> snd \<circ> snd)
                   (get_move toy_agent toy_board 10 countdown toy_world) = Some 1"
    by code_simp
  ultimately show ?thesis by simp
qed

end
